theory Spec2Isabelle
  imports Complex_Main "HOL-Library.Word"
begin

section \<open>Strings\<close>

text \<open>
  A JavaScript string is a sequence of UTF-16 code units; regular expressions without the
  \<^verbatim>\<open>u\<close> flag, \<^verbatim>\<open>split\<close>, \<^verbatim>\<open>slice\<close>,
  \<^verbatim>\<open>trimEnd\<close> and \<^verbatim>\<open>length\<close> all work on code units.
  \<open>js\<close> reads an ASCII literal as such a string.
\<close>

type_synonym code_unit = "16 word"
type_synonym jsstring = "code_unit list"

definition js :: "string \<Rightarrow> jsstring" where
  "js s = map of_char s"

definition bang :: code_unit where "bang = 0x21"
definition dollar :: code_unit where "dollar = 0x24"
definition lparen :: code_unit where "lparen = 0x28"
definition rparen :: code_unit where "rparen = 0x29"
definition star :: code_unit where "star = 0x2A"
definition lbracket :: code_unit where "lbracket = 0x5B"
definition rbracket :: code_unit where "rbracket = 0x5D"
definition backtick :: code_unit where "backtick = 0x60"
definition newline :: code_unit where "newline = 0x0A"

text \<open>
  The line terminators of ECMAScript (LF, CR, LS, PS): the code units that \<^verbatim>\<open>.\<close>
  does not match.
\<close>

definition is_line_terminator :: "code_unit \<Rightarrow> bool" where
  "is_line_terminator c = (c = 0x0A \<or> c = 0x0D \<or> c = 0x2028 \<or> c = 0x2029)"

text \<open>
  White space of ECMAScript, the class \<^verbatim>\<open>\s\<close> and what \<^verbatim>\<open>trimEnd\<close>
  strips: TAB, VT, FF, SP, NBSP, ZWNBSP, the category Zs, and the line terminators.
\<close>

definition is_space :: "code_unit \<Rightarrow> bool" where
  "is_space c =
     (c = 0x09 \<or> c = 0x0B \<or> c = 0x0C \<or> c = 0x20 \<or> c = 0xA0 \<or> c = 0xFEFF
      \<or> c = 0x1680 \<or> (0x2000 \<le> c \<and> c \<le> 0x200A) \<or> c = 0x202F \<or> c = 0x205F
      \<or> c = 0x3000 \<or> is_line_terminator c)"

definition trimEnd :: "jsstring \<Rightarrow> jsstring" where
  "trimEnd s = rev (dropWhile is_space (rev s))"

text \<open>\<^verbatim>\<open>s.split('\n')\<close>: the segments between newlines, never an empty array.\<close>

fun split_newline :: "jsstring \<Rightarrow> jsstring list" where
  "split_newline [] = [[]]"
| "split_newline (c # cs) =
     (if c = newline then [] # split_newline cs
      else (case split_newline cs of [] \<Rightarrow> [[c]] | l # ls \<Rightarrow> (c # l) # ls))"

section \<open>Regular expressions of the repair engine\<close>

text \<open>
  The two patterns given to \<^verbatim>\<open>test\<close> are sequences of single code units, starred
  classes and the end anchor. \<open>re_match_at\<close> matches such a sequence at the start of
  the input by backtracking, a starred class taking as many code units as it can first;
  \<open>re_test\<close> tries every start index from the left, as \<^verbatim>\<open>test\<close> does
  without the sticky flag.
\<close>

datatype re_item = One "code_unit \<Rightarrow> bool" | Many "code_unit \<Rightarrow> bool" | Eos

fun re_match_at :: "re_item list \<Rightarrow> jsstring \<Rightarrow> bool" where
  "re_match_at [] s = True"
| "re_match_at (Eos # r) s = (s = [] \<and> re_match_at r s)"
| "re_match_at (One P # r) [] = False"
| "re_match_at (One P # r) (c # cs) = (P c \<and> re_match_at r cs)"
| "re_match_at (Many P # r) [] = re_match_at r []"
| "re_match_at (Many P # r) (c # cs) =
     ((P c \<and> re_match_at (Many P # r) cs) \<or> re_match_at r (c # cs))"

fun re_test :: "re_item list \<Rightarrow> jsstring \<Rightarrow> bool" where
  "re_test r [] = re_match_at r []"
| "re_test r (c # cs) = (re_match_at r (c # cs) \<or> re_test r cs)"

text \<open>\<^verbatim>\<open>/\*\*[^\*]*\s*$/\<close>\<close>

definition bold_re :: "re_item list" where
  "bold_re = [One (\<lambda>c. c = star), One (\<lambda>c. c = star), Many (\<lambda>c. c \<noteq> star), Many is_space, Eos]"

text \<open>
  \<^verbatim>\<open>/(\!\[|\[)[^\]]*\]\([^\)]*$/\<close>: the alternation is at the head of the
  pattern, so the pattern is the union of its two expansions.
\<close>

definition link_tail :: "re_item list" where
  "link_tail = [Many (\<lambda>c. c \<noteq> rbracket), One (\<lambda>c. c = rbracket), One (\<lambda>c. c = lparen),
                Many (\<lambda>c. c \<noteq> rparen), Eos]"

definition link_re_image :: "re_item list" where
  "link_re_image = One (\<lambda>c. c = bang) # One (\<lambda>c. c = lbracket) # link_tail"

definition link_re_plain :: "re_item list" where
  "link_re_plain = One (\<lambda>c. c = lbracket) # link_tail"

definition link_test :: "jsstring \<Rightarrow> bool" where
  "link_test s = (re_test link_re_image s \<or> re_test link_re_plain s)"

text \<open>
  \<^verbatim>\<open>(s.match(/```/g) || []).length\<close> and the same for \<^verbatim>\<open>/\$\$/g\<close>:
  the matches of a global search do not overlap, the search resumes after each match.
\<close>

fun count_fence :: "jsstring \<Rightarrow> nat" where
  "count_fence (a # b # c # s) =
     (if a = backtick \<and> b = backtick \<and> c = backtick then Suc (count_fence s)
      else count_fence (b # c # s))"
| "count_fence s = 0"

fun count_math :: "jsstring \<Rightarrow> nat" where
  "count_math (a # b # s) =
     (if a = dollar \<and> b = dollar then Suc (count_math s) else count_math (b # s))"
| "count_math s = 0"

definition count_backtick :: "jsstring \<Rightarrow> nat" where
  "count_backtick s = length (filter (\<lambda>c. c = backtick) s)"

section \<open>Directive normalization\<close>

text \<open>
  \<^verbatim>\<open>text.replace(/!!!(.*?)!!!/g, ':spoiler[$1]')\<close>. After an opening
  \<^verbatim>\<open>!!!\<close>, \<open>find_close\<close> is the lazy group followed by the closing
  delimiter: it takes the nearest \<^verbatim>\<open>!!!\<close>, and fails at a line terminator,
  which \<^verbatim>\<open>.\<close> does not match. It returns the captured group and the input after the
  match.
\<close>

fun find_close :: "jsstring \<Rightarrow> (jsstring \<times> jsstring) option" where
  "find_close (a # b # c # s) =
     (if a = bang \<and> b = bang \<and> c = bang then Some ([], s)
      else if is_line_terminator a then None
      else map_option (\<lambda>(x, r). (a # x, r)) (find_close (b # c # s)))"
| "find_close [a, b] = None"
| "find_close [a] = None"
| "find_close [] = None"

lemma find_close_length: "find_close s = Some (x, r) \<Longrightarrow> length r < length s"
  by (induction s arbitrary: x rule: find_close.induct)
     (fastforce split: if_splits)+

definition spoiler_open :: jsstring where "spoiler_open = js '':spoiler[''"
definition spoiler_close :: jsstring where "spoiler_close = js '']''"

text \<open>
  The global replace: at the leftmost index where the pattern matches, the match is
  replaced and the search resumes after it; a code unit where no match starts is copied.
\<close>

function replace_spoiler :: "jsstring \<Rightarrow> jsstring" where
  "replace_spoiler (a # b # c # s) =
     (if a = bang \<and> b = bang \<and> c = bang then
        (case find_close s of
           Some (x, r) \<Rightarrow> spoiler_open @ x @ spoiler_close @ replace_spoiler r
         | None \<Rightarrow> a # replace_spoiler (b # c # s))
      else a # replace_spoiler (b # c # s))"
| "replace_spoiler [a, b] = [a, b]"
| "replace_spoiler [a] = [a]"
| "replace_spoiler [] = []"
  by pat_completeness auto
termination
  by (relation "measure length") (auto dest: find_close_length)

section \<open>The repair engine\<close>

definition autoFixMarkdown :: "jsstring \<Rightarrow> bool \<Rightarrow> jsstring" where
  "autoFixMarkdown text enabled =
     (let processedText = replace_spoiler text in
      if \<not> enabled then processedText
      else
        let codeBlockCount = count_fence processedText in
        if codeBlockCount mod 2 \<noteq> 0 then processedText @ js ''\<newline>```''
        else
          let mathBlockCount = count_math processedText in
          if mathBlockCount mod 2 \<noteq> 0 then processedText @ js ''$$''
          else
            let lines = split_newline processedText;
                lastLine = (if lines = [] then [] else last lines);
                backtickCount = count_backtick lastLine
            in if backtickCount mod 2 \<noteq> 0 then processedText @ js ''`''
               else if re_test bold_re processedText then trimEnd processedText @ js ''**''
               else if link_test processedText then processedText @ js '')''
               else processedText)"

section \<open>The streaming scheduler\<close>

text \<open>
  The speeds and the cursor of the hook are JavaScript numbers. The finite values of the
  model are the integers: the lengths, the cursor, and the speeds as the range inputs of
  the caller give them; a finite speed that is not an integer is not modelled. Beside them
  are \<^verbatim>\<open>NaN\<close> and the two infinities. Finite values are added exactly; double
  arithmetic agrees as long as the values stay below \<open>2^53\<close> in magnitude, as the
  lengths, the cursor and the speeds of the caller's range inputs (1 to 10) do.
\<close>

datatype number = Fin int | NaN | PosInf | NegInf

fun js_add :: "number \<Rightarrow> number \<Rightarrow> number" where
  "js_add (Fin a) (Fin b) = Fin (a + b)"
| "js_add NaN y = NaN"
| "js_add x NaN = NaN"
| "js_add PosInf NegInf = NaN"
| "js_add NegInf PosInf = NaN"
| "js_add PosInf y = PosInf"
| "js_add x PosInf = PosInf"
| "js_add NegInf y = NegInf"
| "js_add x NegInf = NegInf"

fun js_neg :: "number \<Rightarrow> number" where
  "js_neg (Fin a) = Fin (- a)"
| "js_neg NaN = NaN"
| "js_neg PosInf = NegInf"
| "js_neg NegInf = PosInf"

definition js_sub :: "number \<Rightarrow> number \<Rightarrow> number" where
  "js_sub x y = js_add x (js_neg y)"

text \<open>\<^verbatim>\<open>x < y\<close>: false as soon as one side is \<^verbatim>\<open>NaN\<close>.\<close>

fun js_less :: "number \<Rightarrow> number \<Rightarrow> bool" where
  "js_less (Fin a) (Fin b) = (a < b)"
| "js_less NaN y = False"
| "js_less x NaN = False"
| "js_less PosInf y = False"
| "js_less x PosInf = True"
| "js_less NegInf NegInf = False"
| "js_less NegInf y = True"
| "js_less x NegInf = False"

text \<open>
  \<^verbatim>\<open>Math.max\<close> and \<^verbatim>\<open>Math.min\<close> of two numbers: \<^verbatim>\<open>NaN\<close> as soon
  as one argument is \<^verbatim>\<open>NaN\<close>.
\<close>

definition Math_max :: "number \<Rightarrow> number \<Rightarrow> number" where
  "Math_max x y = (if x = NaN \<or> y = NaN then NaN else if js_less x y then y else x)"

definition Math_min :: "number \<Rightarrow> number \<Rightarrow> number" where
  "Math_min x y = (if x = NaN \<or> y = NaN then NaN else if js_less y x then y else x)"

text \<open>
  \<^verbatim>\<open>Math.floor(Math.random() * x)\<close>. For a finite \<open>x\<close> the product is
  rounded to a double and then floored to an integer; which integer that is depends on the
  random value and on the rounding. The product is not computed here: the integer is part
  of the draw, so that every tick of the source is a tick of the model at some draw.
  \<^verbatim>\<open>Math.random()\<close> may return 0, and \<^verbatim>\<open>0 * Infinity\<close> is \<^verbatim>\<open>NaN\<close>.
\<close>

datatype random = Zero | Nonzero int

fun floor_random_times :: "random \<Rightarrow> number \<Rightarrow> number" where
  "floor_random_times Zero (Fin w) = Fin 0"
| "floor_random_times (Nonzero d) (Fin w) = Fin d"
| "floor_random_times r NaN = NaN"
| "floor_random_times Zero PosInf = NaN"
| "floor_random_times Zero NegInf = NaN"
| "floor_random_times (Nonzero d) PosInf = PosInf"
| "floor_random_times (Nonzero d) NegInf = NegInf"

text \<open>
  \<^verbatim>\<open>s.slice(0, e)\<close>: the end is made an integer (\<^verbatim>\<open>NaN\<close> becomes 0), and
  a negative end counts from the end of the string.
\<close>

fun slice0 :: "jsstring \<Rightarrow> number \<Rightarrow> jsstring" where
  "slice0 s (Fin e) =
     (let len = int (length s);
          to = (if e < 0 then max (len + e) 0 else min e len)
      in take (nat to) s)"
| "slice0 s NaN = take 0 s"
| "slice0 s PosInf = s"
| "slice0 s NegInf = take 0 s"

text \<open>
  The hook \<^verbatim>\<open>useSmartStream\<close>: its four arguments, the state
  \<^verbatim>\<open>displayBuffer\<close> and the two refs.
\<close>

record stream_state =
  fullText :: jsstring
  isStreaming :: bool
  minSpeed :: number
  maxSpeed :: number
  displayBuffer :: jsstring
  fullTextRef :: jsstring
  indexRef :: number

text \<open>The effect on \<^verbatim>\<open>[fullText]\<close>.\<close>

definition effect_fullText :: "stream_state \<Rightarrow> stream_state" where
  "effect_fullText s =
     (let s1 = s\<lparr>fullTextRef := fullText s\<rparr> in
      if js_less (Fin (int (length (fullText s1)))) (indexRef s1)
      then s1\<lparr>indexRef := Fin (int (length (fullText s1))), displayBuffer := fullText s1\<rparr>
      else s1)"

text \<open>The callback of the interval timer; \<open>r\<close> is the draw of this call.\<close>

definition tick :: "random \<Rightarrow> stream_state \<Rightarrow> stream_state" where
  "tick r s =
     (let currentTarget = fullTextRef s;
          currentCursor = indexRef s
      in if js_less currentCursor (Fin (int (length currentTarget))) then
           let speed = js_add (floor_random_times r
                                 (js_add (js_sub (maxSpeed s) (minSpeed s)) (Fin 1)))
                              (minSpeed s);
               charsToAdd = Math_max (Fin 1) speed;
               nextCursor = Math_min (js_add currentCursor charsToAdd)
                                     (Fin (int (length currentTarget)))
           in s\<lparr>indexRef := nextCursor, displayBuffer := slice0 currentTarget nextCursor\<rparr>
         else s)"

text \<open>The effect on \<^verbatim>\<open>[isStreaming, fullText]\<close>.\<close>

definition effect_isStreaming :: "stream_state \<Rightarrow> stream_state" where
  "effect_isStreaming s =
     (if \<not> isStreaming s
      then s\<lparr>indexRef := Fin (int (length (fullTextRef s))), displayBuffer := fullTextRef s\<rparr>
      else s)"

text \<open>
  The first render: the initial values of the state and the refs, then the effects in the
  order of their declaration (the timer effect changes no state). The caller passes the
  two fields of \<^verbatim>\<open>speedConfig\<close>, which start at 1 and 3 and are set from range
  inputs: integers.
\<close>

definition mount :: "jsstring \<Rightarrow> bool \<Rightarrow> int \<Rightarrow> int \<Rightarrow> stream_state" where
  "mount t st mn mx =
     effect_isStreaming (effect_fullText
       \<lparr>fullText = t, isStreaming = st, minSpeed = Fin mn, maxSpeed = Fin mx,
        displayBuffer = [], fullTextRef = t, indexRef = Fin 0\<rparr>)"

text \<open>
  What happens to a mounted hook: the timer fires, or the caller renders it with another
  argument, and the effects whose dependencies changed run in the order of their
  declaration. A change of the speeds only restarts the timer.
\<close>

datatype event = Tick random | SetFullText jsstring | SetStreaming bool | SetSpeed int int

fun step :: "stream_state \<Rightarrow> event \<Rightarrow> stream_state" where
  "step s (Tick r) = tick r s"
| "step s (SetFullText u) =
     (if u = fullText s then s
      else effect_isStreaming (effect_fullText (s\<lparr>fullText := u\<rparr>)))"
| "step s (SetStreaming b) =
     (if b = isStreaming s then s else effect_isStreaming (s\<lparr>isStreaming := b\<rparr>))"
| "step s (SetSpeed mn mx) = s\<lparr>minSpeed := Fin mn, maxSpeed := Fin mx\<rparr>"

definition run :: "stream_state \<Rightarrow> event list \<Rightarrow> stream_state" where
  "run s es = foldl step s es"

text \<open>
  What holds of the hook after the first render and after every event: the ref mirrors the
  argument, the speeds are integers, the cursor is the length of the published buffer and
  a valid prefix index, and with streaming off the whole text is shown.
\<close>

definition stream_inv :: "stream_state \<Rightarrow> bool" where
  "stream_inv s \<longleftrightarrow>
     fullTextRef s = fullText s \<and>
     (\<exists>m n. minSpeed s = Fin m \<and> maxSpeed s = Fin n) \<and>
     indexRef s = Fin (int (length (displayBuffer s))) \<and>
     length (displayBuffer s) \<le> length (fullText s) \<and>
     (\<not> isStreaming s \<longrightarrow> displayBuffer s = fullText s)"

section \<open>Properties of the streaming scheduler\<close>

lemma Math_max_Fin: "Math_max (Fin a) (Fin b) = Fin (max a b)"
  by (simp add: Math_max_def)

lemma Math_min_Fin: "Math_min (Fin a) (Fin b) = Fin (min a b)"
  by (simp add: Math_min_def)

lemma js_sub_Fin: "js_sub (Fin a) (Fin b) = Fin (a - b)"
  by (simp add: js_sub_def)

lemma floor_random_times_Fin: "\<exists>d. floor_random_times r (Fin w) = Fin d"
  by (cases r) simp_all

lemma length_slice0:
  "0 \<le> e \<Longrightarrow> e \<le> int (length s) \<Longrightarrow> int (length (slice0 s (Fin e))) = e"
  by (simp add: Let_def)

lemma length_slice0_le: "length (slice0 s e) \<le> length s"
  by (cases e) (simp_all add: Let_def)

lemma slice0_full: "slice0 s (Fin (int (length s))) = s"
  by (simp add: Let_def)

text \<open>With integer speeds and an integer cursor, a tick computes on integers.\<close>

lemma tick_Fin:
  assumes "minSpeed s = Fin m" and "maxSpeed s = Fin n" and "indexRef s = Fin c"
      and "c < int (length (fullTextRef s))"
  shows "\<exists>d. tick r s =
           s\<lparr>indexRef := Fin (min (c + max 1 (d + m)) (int (length (fullTextRef s)))),
             displayBuffer := slice0 (fullTextRef s)
                                (Fin (min (c + max 1 (d + m)) (int (length (fullTextRef s)))))\<rparr>"
proof -
  obtain d where d: "floor_random_times r (Fin (n - m + 1)) = Fin d"
    using floor_random_times_Fin by blast
  have "tick r s =
           s\<lparr>indexRef := Fin (min (c + max 1 (d + m)) (int (length (fullTextRef s)))),
             displayBuffer := slice0 (fullTextRef s)
                                (Fin (min (c + max 1 (d + m)) (int (length (fullTextRef s)))))\<rparr>"
    using assms d
    by (simp add: tick_def Let_def js_sub_Fin Math_max_Fin Math_min_Fin del: slice0.simps)
  then show ?thesis by blast
qed

lemma tick_idle:
  "indexRef s = Fin c \<Longrightarrow> int (length (fullTextRef s)) \<le> c \<Longrightarrow> tick r s = s"
  by (simp add: tick_def Let_def)

lemma stream_inv_mount: "stream_inv (mount t st mn mx)"
  by (simp add: stream_inv_def mount_def effect_isStreaming_def effect_fullText_def Let_def)

lemma stream_inv_tick:
  assumes "stream_inv s"
  shows "stream_inv (tick r s)"
proof -
  obtain m n where speeds: "minSpeed s = Fin m" "maxSpeed s = Fin n"
    using assms by (auto simp: stream_inv_def)
  let ?c = "int (length (displayBuffer s))"
  let ?len = "int (length (fullTextRef s))"
  have cursor: "indexRef s = Fin ?c"
    using assms by (simp add: stream_inv_def)
  have ref: "fullTextRef s = fullText s"
    using assms by (simp add: stream_inv_def)
  show ?thesis
  proof (cases "?c < ?len")
    case True
    then obtain d where moved:
      "tick r s =
           s\<lparr>indexRef := Fin (min (?c + max 1 (d + m)) ?len),
             displayBuffer := slice0 (fullTextRef s) (Fin (min (?c + max 1 (d + m)) ?len))\<rparr>"
      using tick_Fin [OF speeds cursor] by blast
    let ?k = "min (?c + max 1 (d + m)) ?len"
    have "0 \<le> ?k" and "?k \<le> ?len"
      by simp_all
    then have len: "int (length (slice0 (fullTextRef s) (Fin ?k))) = ?k"
      by (rule length_slice0)
    have le: "length (slice0 (fullTextRef s) (Fin ?k)) \<le> length (fullText s)"
      using length_slice0_le [of "fullTextRef s" "Fin ?k"] ref by simp
    have on: "isStreaming s"
    proof (rule ccontr)
      assume "\<not> isStreaming s"
      then have "displayBuffer s = fullText s"
        using assms by (simp add: stream_inv_def)
      then show False using True ref by simp
    qed
    show ?thesis
      unfolding moved stream_inv_def
      using ref speeds len le on by (simp del: slice0.simps)
  next
    case False
    then have "tick r s = s"
      using tick_idle [OF cursor] by simp
    then show ?thesis using assms by simp
  qed
qed

lemma stream_inv_step: "stream_inv s \<Longrightarrow> stream_inv (step s e)"
proof (cases e)
  case (Tick r)
  assume "stream_inv s"
  then show ?thesis using Tick by (simp add: stream_inv_tick)
next
  case (SetFullText u)
  assume "stream_inv s"
  then show ?thesis using SetFullText
    by (auto simp: stream_inv_def effect_isStreaming_def effect_fullText_def Let_def)
next
  case (SetStreaming b)
  assume "stream_inv s"
  then show ?thesis using SetStreaming
    by (auto simp: stream_inv_def effect_isStreaming_def)
next
  case (SetSpeed mn mx)
  assume "stream_inv s"
  then show ?thesis using SetSpeed by (simp add: stream_inv_def)
qed

lemma stream_inv_run: "stream_inv s \<Longrightarrow> stream_inv (run s es)"
  unfolding run_def by (induction es arbitrary: s) (simp_all add: stream_inv_step)

lemma stream_inv_reachable: "stream_inv (run (mount t st mn mx) es)"
  by (rule stream_inv_run [OF stream_inv_mount])

text \<open>
  Claim C5. With the target text fixed, integer speeds and an integer cursor, a tick whose
  cursor is below the length of the text moves the cursor up by at least 1 and not beyond
  the length of the text, whatever the draw is, and publishes that prefix, whose length
  does not exceed the length of the text; a tick whose cursor has reached the length of
  the text changes nothing.
\<close>

theorem tick_progress:
  assumes "minSpeed s = Fin m" and "maxSpeed s = Fin n" and "indexRef s = Fin c"
  shows "(c < int (length (fullTextRef s)) \<longrightarrow>
            (\<exists>c'. indexRef (tick r s) = Fin c' \<and> c + 1 \<le> c' \<and>
                  c' \<le> int (length (fullTextRef s))) \<and>
            length (displayBuffer (tick r s)) \<le> length (fullTextRef s) \<and>
            displayBuffer (tick r s) = slice0 (fullTextRef s) (indexRef (tick r s)) \<and>
            fullTextRef (tick r s) = fullTextRef s) \<and>
         (int (length (fullTextRef s)) \<le> c \<longrightarrow> tick r s = s)"
proof (cases "c < int (length (fullTextRef s))")
  case True
  then obtain d where moved:
    "tick r s =
       s\<lparr>indexRef := Fin (min (c + max 1 (d + m)) (int (length (fullTextRef s)))),
         displayBuffer := slice0 (fullTextRef s)
                            (Fin (min (c + max 1 (d + m)) (int (length (fullTextRef s)))))\<rparr>"
    using tick_Fin [OF assms] by blast
  let ?next = "min (c + max 1 (d + m)) (int (length (fullTextRef s)))"
  have "c + 1 \<le> ?next" and "?next \<le> int (length (fullTextRef s))"
    using True by simp_all
  then have "\<exists>c'. indexRef (tick r s) = Fin c' \<and> c + 1 \<le> c' \<and>
                  c' \<le> int (length (fullTextRef s))"
    unfolding moved by simp
  moreover have "length (displayBuffer (tick r s)) \<le> length (fullTextRef s)"
    unfolding moved using length_slice0_le [of "fullTextRef s" "Fin ?next"]
    by (simp del: slice0.simps)
  moreover have "displayBuffer (tick r s) = slice0 (fullTextRef s) (indexRef (tick r s))"
    unfolding moved by (simp del: slice0.simps)
  moreover have "fullTextRef (tick r s) = fullTextRef s"
    unfolding moved by simp
  ultimately show ?thesis using True by simp
next
  case False
  then have "tick r s = s"
    using tick_idle [OF assms(3)] by simp
  then show ?thesis using False by simp
qed

theorem tick_progress_witness:
  "indexRef (tick (Nonzero 1) (mount (js ''hello'') True 1 3)) = Fin 2 \<and>
   displayBuffer (tick (Nonzero 1) (mount (js ''hello'') True 1 3)) = js ''he'' \<and>
   tick (Nonzero 1) (run (mount (js ''hello'') True 1 3) [Tick (Nonzero 1), Tick (Nonzero 2), Tick Zero]) =
     run (mount (js ''hello'') True 1 3) [Tick (Nonzero 1), Tick (Nonzero 2), Tick Zero]"
proof -
  let ?s = "mount (js ''hello'') True 1 3"
  let ?e = "run (mount (js ''hello'') True 1 3) [Tick (Nonzero 1), Tick (Nonzero 2), Tick Zero]"
  have a: "minSpeed ?s = Fin 1" "maxSpeed ?s = Fin 3" "indexRef ?s = Fin 0"
    by code_simp+
  have b: "minSpeed ?e = Fin 1" "maxSpeed ?e = Fin 3" "indexRef ?e = Fin 5"
    by code_simp+
  have c: "int (length (fullTextRef ?s)) = 5" "int (length (fullTextRef ?e)) = 5"
    by code_simp+
  have d: "indexRef (tick (Nonzero 1) ?s) = Fin 2"
    by code_simp
  have e: "displayBuffer (tick (Nonzero 1) ?s) = js ''he''"
    by code_simp
  have "tick (Nonzero 1) ?e = ?e"
    using tick_progress [OF b, of "Nonzero 1"] c by simp
  moreover have "\<exists>c'. indexRef (tick (Nonzero 1) ?s) = Fin c' \<and> 0 + 1 \<le> c' \<and> c' \<le> 5"
    using tick_progress [OF a, of "Nonzero 1"] c by simp
  ultimately show ?thesis using d e by simp
qed

text \<open>
  Claim C2, as stated, fails: after one tick on the text abc that draws 1 (the random
  value 0.5, whose product with the range 3 is 1.5 without rounding) the cursor is 2 and
  the buffer is ab; replacing the text by xyz, of the same length, leaves the cursor at 2
  and the buffer at ab, which is not the prefix xy of the new text.
\<close>

theorem display_buffer_stale_counterexample:
  "displayBuffer (run (mount (js ''abc'') True 1 3) [Tick (Nonzero 1), SetFullText (js ''xyz'')]) \<noteq>
   slice0 (fullText (run (mount (js ''abc'') True 1 3) [Tick (Nonzero 1), SetFullText (js ''xyz'')]))
          (indexRef (run (mount (js ''abc'') True 1 3) [Tick (Nonzero 1), SetFullText (js ''xyz'')]))"
  by code_simp

text \<open>
  Claim C2, amended. After every event the cursor is the length of the published buffer,
  which does not exceed the length of the current text. Whenever the event changed the
  cursor or the buffer, the buffer is the prefix of the current text up to the cursor.
  Replacing the text, with streaming on, by a text that is not shorter than the cursor
  changes neither the cursor nor the buffer.
\<close>

theorem display_buffer_published:
  assumes "s = run (mount t st mn mx) es" and "s' = step s e"
  shows "indexRef s' = Fin (int (length (displayBuffer s'))) \<and>
         length (displayBuffer s') \<le> length (fullText s') \<and>
         (indexRef s' \<noteq> indexRef s \<or> displayBuffer s' \<noteq> displayBuffer s \<longrightarrow>
            displayBuffer s' = slice0 (fullText s') (indexRef s')) \<and>
         (\<forall>u. e = SetFullText u \<and> isStreaming s \<and>
              \<not> js_less (Fin (int (length u))) (indexRef s) \<longrightarrow>
            displayBuffer s' = displayBuffer s \<and> indexRef s' = indexRef s)"
proof -
  have inv: "stream_inv s"
    using assms(1) by (simp add: stream_inv_reachable)
  then have inv': "stream_inv s'"
    unfolding assms(2) by (rule stream_inv_step)
  have bounds: "indexRef s' = Fin (int (length (displayBuffer s'))) \<and>
         length (displayBuffer s') \<le> length (fullText s')"
    using inv' by (simp add: stream_inv_def)
  have fresh: "indexRef s' \<noteq> indexRef s \<or> displayBuffer s' \<noteq> displayBuffer s \<longrightarrow>
            displayBuffer s' = slice0 (fullText s') (indexRef s')"
  proof (cases e)
    case (Tick r)
    obtain m n where speeds: "minSpeed s = Fin m" "maxSpeed s = Fin n"
      using inv by (auto simp: stream_inv_def)
    have cursor: "indexRef s = Fin (int (length (displayBuffer s)))"
      using inv by (simp add: stream_inv_def)
    have ref: "fullTextRef s = fullText s"
      using inv by (simp add: stream_inv_def)
    show ?thesis
    proof (cases "int (length (displayBuffer s)) < int (length (fullTextRef s))")
      case True
      then obtain d where
        "tick r s =
           s\<lparr>indexRef := Fin (min (int (length (displayBuffer s)) + max 1 (d + m))
                                 (int (length (fullTextRef s)))),
             displayBuffer := slice0 (fullTextRef s)
                                (Fin (min (int (length (displayBuffer s)) + max 1 (d + m))
                                          (int (length (fullTextRef s)))))\<rparr>"
        using tick_Fin [OF speeds cursor] by blast
      then show ?thesis using Tick assms(2) ref by (simp del: slice0.simps)
    next
      case False
      then have "tick r s = s" using tick_idle [OF cursor] by simp
      then show ?thesis using Tick assms(2) by simp
    qed
  next
    case (SetFullText u)
    then show ?thesis using inv assms(2)
      by (auto simp: stream_inv_def effect_isStreaming_def effect_fullText_def Let_def slice0_full
               simp del: slice0.simps)
  next
    case (SetStreaming b)
    then show ?thesis using inv assms(2)
      by (auto simp: stream_inv_def effect_isStreaming_def slice0_full simp del: slice0.simps)
  next
    case (SetSpeed a b)
    then show ?thesis using assms(2) by simp
  qed
  have kept: "\<forall>u. e = SetFullText u \<and> isStreaming s \<and>
              \<not> js_less (Fin (int (length u))) (indexRef s) \<longrightarrow>
            displayBuffer s' = displayBuffer s \<and> indexRef s' = indexRef s"
    using assms(2) by (auto simp: effect_isStreaming_def effect_fullText_def Let_def)
  show ?thesis using bounds fresh kept by blast
qed

theorem display_buffer_published_witness:
  "displayBuffer (step (run (mount (js ''abc'') True 1 3) [Tick (Nonzero 1)]) (SetFullText (js ''xyzw''))) =
     displayBuffer (run (mount (js ''abc'') True 1 3) [Tick (Nonzero 1)]) \<and>
   displayBuffer (run (mount (js ''abc'') True 1 3) [Tick (Nonzero 1)]) = js ''ab'' \<and>
   displayBuffer (step (run (mount (js ''abc'') True 1 3) [Tick (Nonzero 1)]) (Tick (Nonzero 1))) = js ''abc'' \<and>
   displayBuffer (step (run (mount (js ''abc'') True 1 3) [Tick (Nonzero 1)]) (Tick (Nonzero 1))) =
     slice0 (fullText (step (run (mount (js ''abc'') True 1 3) [Tick (Nonzero 1)]) (Tick (Nonzero 1))))
            (indexRef (step (run (mount (js ''abc'') True 1 3) [Tick (Nonzero 1)]) (Tick (Nonzero 1))))"
proof -
  let ?s = "run (mount (js ''abc'') True 1 3) [Tick (Nonzero 1)]"
  have a: "displayBuffer ?s = js ''ab''"
    by code_simp
  have c: "isStreaming ?s"
    by code_simp
  have d: "displayBuffer (step ?s (Tick (Nonzero 1))) = js ''abc''"
    by code_simp
  have e: "displayBuffer (step ?s (Tick (Nonzero 1))) \<noteq> displayBuffer ?s"
    by code_simp
  have l: "\<not> js_less (Fin (int (length (js ''xyzw'')))) (indexRef ?s)"
    by code_simp
  note longer = display_buffer_published [OF refl refl, of "js ''abc''" True 1 3
                  "[Tick (Nonzero 1)]" "SetFullText (js ''xyzw'')",
                  THEN conjunct2, THEN conjunct2, THEN conjunct2, THEN spec, of "js ''xyzw''"]
  have stale: "displayBuffer (step ?s (SetFullText (js ''xyzw''))) = displayBuffer ?s"
    using longer c l by (simp del: step.simps)
  note ticked = display_buffer_published [OF refl refl, of "js ''abc''" True 1 3
                  "[Tick (Nonzero 1)]" "Tick (Nonzero 1)",
                  THEN conjunct2, THEN conjunct2, THEN conjunct1]
  have fresh: "displayBuffer (step ?s (Tick (Nonzero 1))) =
     slice0 (fullText (step ?s (Tick (Nonzero 1)))) (indexRef (step ?s (Tick (Nonzero 1))))"
    using ticked e by (simp del: step.simps slice0.simps)
  show ?thesis
    by (intro conjI) (rule stale a d fresh)+
qed




lemma not_enable_run:
  "stream_inv s \<Longrightarrow> \<not> isStreaming s \<Longrightarrow> SetStreaming True \<notin> set es \<Longrightarrow>
     \<not> isStreaming (run s es)"
proof (induction es arbitrary: s)
  case Nil
  then show ?case by (simp add: run_def)
next
  case (Cons e es)
  have "\<not> isStreaming (step s e)"
    using Cons.prems
    by (cases e) (auto simp: tick_def Let_def effect_isStreaming_def effect_fullText_def)
  moreover have "stream_inv (step s e)"
    using Cons.prems by (simp add: stream_inv_step)
  ultimately have "\<not> isStreaming (run (step s e) es)"
    using Cons.IH Cons.prems by simp
  then show ?case by (simp add: run_def)
qed

lemma run_ticks_idle:
  "indexRef s = Fin c \<Longrightarrow> int (length (fullTextRef s)) \<le> c \<Longrightarrow> run s (map Tick rs) = s"
  by (induction rs) (simp_all add: run_def tick_idle)

text \<open>
  Claim C6. When streaming is switched off, from any reachable state and so from any cursor
  position, the cursor becomes the length of the text and the published buffer the whole
  text; the buffer is still the whole current text after any further events that do not
  switch streaming on again, and ticks leave the state as it is.
\<close>

theorem full_reveal:
  assumes "s = run (mount t st mn mx) es"
      and "s1 = step s (SetStreaming False)"
      and "SetStreaming True \<notin> set es'"
      and "s2 = run s1 es'"
  shows "indexRef s1 = Fin (int (length (fullText s))) \<and> displayBuffer s1 = fullText s \<and>
         fullText s1 = fullText s \<and>
         displayBuffer s2 = fullText s2 \<and> indexRef s2 = Fin (int (length (fullText s2))) \<and>
         run s1 (map Tick rs) = s1"
proof -
  have inv: "stream_inv s"
    using assms(1) by (simp add: stream_inv_reachable)
  then have inv1: "stream_inv s1"
    unfolding assms(2) by (rule stream_inv_step)
  have off1: "\<not> isStreaming s1"
    using assms(2) by (simp add: effect_isStreaming_def)
  have same: "fullText s1 = fullText s"
    using assms(2) by (simp add: effect_isStreaming_def)
  have now: "indexRef s1 = Fin (int (length (fullText s))) \<and> displayBuffer s1 = fullText s"
    using inv1 off1 same by (simp add: stream_inv_def)
  have "stream_inv s2"
    unfolding assms(4) using inv1 by (rule stream_inv_run)
  moreover have "\<not> isStreaming s2"
    using not_enable_run [OF inv1 off1 assms(3)] assms(4) by simp
  ultimately have later: "displayBuffer s2 = fullText s2 \<and> indexRef s2 = Fin (int (length (fullText s2)))"
    by (simp add: stream_inv_def)
  have "fullTextRef s1 = fullText s"
    using inv1 same by (simp add: stream_inv_def)
  then have idle: "run s1 (map Tick rs) = s1"
    using now by (intro run_ticks_idle [of s1 "int (length (fullText s))"]) simp_all
  show ?thesis using now same later idle by simp
qed

theorem full_reveal_witness:
  "SetStreaming True \<notin> set [Tick (Nonzero 1), SetSpeed 2 4, Tick (Nonzero 2)] \<and>
   indexRef (step (run (mount (js ''hello'') True 1 3) [Tick (Nonzero 1)]) (SetStreaming False)) = Fin 5 \<and>
   displayBuffer (step (run (mount (js ''hello'') True 1 3) [Tick (Nonzero 1)]) (SetStreaming False)) = js ''hello'' \<and>
   displayBuffer (run (step (run (mount (js ''hello'') True 1 3) [Tick (Nonzero 1)]) (SetStreaming False))
                      [Tick (Nonzero 1), SetSpeed 2 4, Tick (Nonzero 2)]) = js ''hello''"
proof -
  have a: "SetStreaming True \<notin> set [Tick (Nonzero 1), SetSpeed 2 4, Tick (Nonzero 2)]"
    by simp
  have b: "fullText (run (mount (js ''hello'') True 1 3) [Tick (Nonzero 1)]) = js ''hello''"
    by code_simp
  have c: "fullText (run (step (run (mount (js ''hello'') True 1 3) [Tick (Nonzero 1)]) (SetStreaming False))
                      [Tick (Nonzero 1), SetSpeed 2 4, Tick (Nonzero 2)]) = js ''hello''"
    by code_simp
  have d: "int (length (js ''hello'')) = 5"
    by code_simp
  show ?thesis
    using full_reveal [OF refl refl a refl, where t = "js ''hello''" and st = True and mn = 1 and mx = 3
                         and es = "[Tick (Nonzero 1)]"] a b c d
    by (simp del: step.simps)
qed

text \<open>
  Claim C7. When the text is replaced by a text \<open>u\<close> shorter than the cursor, the same
  event sets the cursor to the length of \<open>u\<close> and publishes
  \<open>u[0:min(c, length u)]\<close>, which is \<open>u\<close>; after that no event sequence takes the
  cursor outside the current text.
\<close>

theorem truncation_clamps:
  assumes "s = run (mount t st mn mx) es"
      and "js_less (Fin (int (length u))) (indexRef s)"
      and "s' = step s (SetFullText u)"
  shows "indexRef s' = Fin (int (length u)) \<and>
         displayBuffer s' = slice0 u (Math_min (indexRef s) (Fin (int (length u)))) \<and>
         displayBuffer s' = u \<and> fullTextRef s' = u \<and>
         (\<forall>es'. \<exists>c'. indexRef (run s' es') = Fin c' \<and> 0 \<le> c' \<and>
                     c' \<le> int (length (fullTextRef (run s' es'))))"
proof -
  have inv: "stream_inv s"
    using assms(1) by (simp add: stream_inv_reachable)
  let ?c = "int (length (displayBuffer s))"
  have cursor: "indexRef s = Fin ?c"
    using inv by (simp add: stream_inv_def)
  have shorter: "int (length u) < ?c"
    using assms(2) cursor by simp
  have "length (displayBuffer s) \<le> length (fullText s)"
    using inv by (simp add: stream_inv_def)
  then have differs: "u \<noteq> fullText s"
    using shorter by auto
  have now: "indexRef s' = Fin (int (length u)) \<and> displayBuffer s' = u \<and> fullTextRef s' = u"
    using assms(2,3) differs
    by (simp add: effect_isStreaming_def effect_fullText_def Let_def)
  have "Math_min (indexRef s) (Fin (int (length u))) = Fin (int (length u))"
    using shorter cursor by (simp add: Math_min_Fin)
  then have pre: "slice0 u (Math_min (indexRef s) (Fin (int (length u)))) = u"
    by (simp add: slice0_full del: slice0.simps)
  have inv': "stream_inv s'"
    unfolding assms(3) using inv by (rule stream_inv_step)
  have later: "\<forall>es'. \<exists>c'. indexRef (run s' es') = Fin c' \<and> 0 \<le> c' \<and>
                     c' \<le> int (length (fullTextRef (run s' es')))"
  proof
    fix es'
    have "stream_inv (run s' es')"
      using inv' by (rule stream_inv_run)
    then show "\<exists>c'. indexRef (run s' es') = Fin c' \<and> 0 \<le> c' \<and>
                     c' \<le> int (length (fullTextRef (run s' es')))"
      by (simp add: stream_inv_def)
  qed
  show ?thesis using now pre later by simp
qed

theorem truncation_clamps_witness:
  "js_less (Fin (int (length (js ''he''))))
           (indexRef (run (mount (js ''hello'') True 1 3) [Tick (Nonzero 1), Tick (Nonzero 2)])) \<and>
   indexRef (step (run (mount (js ''hello'') True 1 3) [Tick (Nonzero 1), Tick (Nonzero 2)]) (SetFullText (js ''he'')))
     = Fin (int (length (js ''he''))) \<and>
   displayBuffer (step (run (mount (js ''hello'') True 1 3) [Tick (Nonzero 1), Tick (Nonzero 2)]) (SetFullText (js ''he'')))
     = js ''he''"
proof -
  have a: "js_less (Fin (int (length (js ''he''))))
           (indexRef (run (mount (js ''hello'') True 1 3) [Tick (Nonzero 1), Tick (Nonzero 2)]))"
    by code_simp
  show ?thesis
    using truncation_clamps [OF refl a refl] a by blast
qed

section \<open>Properties of the repair engine\<close>

subsection \<open>What the two tested patterns match\<close>

lemma star_not_space: "\<not> is_space star"
  by (simp add: is_space_def is_line_terminator_def star_def)

lemma re_many_end: "re_match_at [Many P, Eos] s = (\<forall>c\<in>set s. P c)"
  by (induction s) auto

lemma re_nonstar_space_end:
  "re_match_at [Many (\<lambda>c. c \<noteq> star), Many is_space, Eos] s = (star \<notin> set s)"
proof (induction s)
  case Nil
  show ?case by simp
next
  case (Cons c s)
  have "(\<forall>d\<in>set (c # s). is_space d) \<Longrightarrow> star \<notin> set (c # s)"
    using star_not_space by blast
  then show ?case
    using Cons.IH by (auto simp: re_many_end)
qed

lemma re_bold_at:
  "re_match_at bold_re s = (\<exists>b. s = star # star # b \<and> star \<notin> set b)"
proof (cases s)
  case Nil
  then show ?thesis by (simp add: bold_re_def)
next
  case (Cons c cs)
  then show ?thesis
    by (cases cs) (auto simp: bold_re_def re_nonstar_space_end)
qed

lemma re_test_iff: "re_test r s = (\<exists>a b. s = a @ b \<and> re_match_at r b)"
proof (induction s)
  case Nil
  show ?case by simp
next
  case (Cons c s)
  note IH = Cons.IH
  show ?case
  proof
    assume "re_test r (c # s)"
    then consider "re_match_at r (c # s)" | "re_test r s" by auto
    then show "\<exists>a b. c # s = a @ b \<and> re_match_at r b"
    proof cases
      case 1
      then have "c # s = [] @ (c # s) \<and> re_match_at r (c # s)" by simp
      then show ?thesis by blast
    next
      case 2
      then obtain a b where "s = a @ b" "re_match_at r b" using IH by blast
      then have "c # s = (c # a) @ b \<and> re_match_at r b" by simp
      then show ?thesis by blast
    qed
  next
    assume "\<exists>a b. c # s = a @ b \<and> re_match_at r b"
    then obtain a b where ab: "c # s = a @ b" "re_match_at r b" by blast
    show "re_test r (c # s)"
    proof (cases a)
      case Nil
      then have "re_match_at r (c # s)" using ab by simp
      then show ?thesis by simp
    next
      case (Cons d a')
      then have "s = a' @ b" using ab by simp
      then have "re_test r s" using ab IH by blast
      then show ?thesis by simp
    qed
  qed
qed

lemma re_test_bold:
  "re_test bold_re s = (\<exists>a b. s = a @ star # star # b \<and> star \<notin> set b)"
  by (simp add: re_test_iff re_bold_at) blast

lemma re_link_tail:
  "re_match_at link_tail s =
     (\<exists>x y. s = x @ rbracket # lparen # y \<and> rbracket \<notin> set x \<and> rparen \<notin> set y)"
proof (induction s)
  case Nil
  show ?case by (simp add: link_tail_def)
next
  case (Cons c s)
  note IH = Cons.IH
  let ?rest = "[One (\<lambda>c. c = lparen), Many (\<lambda>c. c \<noteq> rparen), Eos]"
  have here: "re_match_at (One (\<lambda>c. c = rbracket) # ?rest) (c # s) =
        (c = rbracket \<and> (\<exists>y. s = lparen # y \<and> rparen \<notin> set y))"
    by (cases s) (auto simp: re_many_end)
  have unfold: "re_match_at link_tail (c # s) =
        ((c \<noteq> rbracket \<and> re_match_at link_tail s) \<or>
         (c = rbracket \<and> (\<exists>y. s = lparen # y \<and> rparen \<notin> set y)))"
    using here by (simp add: link_tail_def)
  show ?case
  proof
    assume "re_match_at link_tail (c # s)"
    then consider "c \<noteq> rbracket" "re_match_at link_tail s"
      | "c = rbracket" "\<exists>y. s = lparen # y \<and> rparen \<notin> set y"
      using unfold by blast
    then show "\<exists>x y. c # s = x @ rbracket # lparen # y \<and> rbracket \<notin> set x \<and> rparen \<notin> set y"
    proof cases
      case 1
      then obtain x y where "s = x @ rbracket # lparen # y" "rbracket \<notin> set x" "rparen \<notin> set y"
        using IH by blast
      then have "c # s = (c # x) @ rbracket # lparen # y \<and> rbracket \<notin> set (c # x) \<and> rparen \<notin> set y"
        using 1 by simp
      then show ?thesis by blast
    next
      case 2
      then obtain y where "s = lparen # y" "rparen \<notin> set y" by blast
      then have "c # s = [] @ rbracket # lparen # y \<and> rbracket \<notin> set [] \<and> rparen \<notin> set y"
        using 2 by simp
      then show ?thesis by blast
    qed
  next
    assume "\<exists>x y. c # s = x @ rbracket # lparen # y \<and> rbracket \<notin> set x \<and> rparen \<notin> set y"
    then obtain x y where xy: "c # s = x @ rbracket # lparen # y" "rbracket \<notin> set x" "rparen \<notin> set y"
      by blast
    show "re_match_at link_tail (c # s)"
    proof (cases x)
      case Nil
      then show ?thesis using xy unfold by auto
    next
      case (Cons d x')
      then have "s = x' @ rbracket # lparen # y" "rbracket \<notin> set x'" "c \<noteq> rbracket"
        using xy by auto
      then show ?thesis using xy(3) unfold IH by blast
    qed
  qed
qed

lemma re_link_plain_at:
  "re_match_at link_re_plain s =
     (\<exists>x y. s = lbracket # x @ rbracket # lparen # y \<and> rbracket \<notin> set x \<and> rparen \<notin> set y)"
  by (cases s) (auto simp: link_re_plain_def re_link_tail)

lemma re_link_image_at:
  "re_match_at link_re_image s = (\<exists>s'. s = bang # s' \<and> re_match_at link_re_plain s')"
  by (cases s) (auto simp: link_re_image_def link_re_plain_def)

lemma link_test_iff:
  "link_test s =
     (\<exists>a x y. s = a @ lbracket # x @ rbracket # lparen # y \<and> rbracket \<notin> set x \<and> rparen \<notin> set y)"
proof -
  have plain: "re_test link_re_plain s =
     (\<exists>a x y. s = a @ lbracket # x @ rbracket # lparen # y \<and> rbracket \<notin> set x \<and> rparen \<notin> set y)"
    by (simp add: re_test_iff re_link_plain_at) blast
  have "re_test link_re_image s \<Longrightarrow> re_test link_re_plain s"
  proof -
    assume "re_test link_re_image s"
    then obtain a b where "s = a @ b" "re_match_at link_re_image b"
      using re_test_iff by blast
    then obtain s' where "s = (a @ [bang]) @ s'" "re_match_at link_re_plain s'"
      using re_link_image_at by auto
    then show ?thesis using re_test_iff by blast
  qed
  then show ?thesis using plain by (auto simp: link_test_def)
qed

subsection \<open>Directive normalization, line by line\<close>

lemma line_terminator_not_bang: "is_line_terminator c \<Longrightarrow> c \<noteq> bang"
  by (auto simp: is_line_terminator_def bang_def)

lemma find_close_Some:
  "find_close s = Some (x, r) \<Longrightarrow> s = x @ bang # bang # bang # r"
  by (induction s arbitrary: x rule: find_close.induct)
     (fastforce split: if_splits)+

lemma find_close_lt1: "is_line_terminator c \<Longrightarrow> find_close (c # s) = None"
proof -
  assume lt: "is_line_terminator c"
  show ?thesis
  proof (cases s)
    case Nil
    then show ?thesis by simp
  next
    case (Cons d s')
    then show ?thesis using lt line_terminator_not_bang
      by (cases s') auto
  qed
qed

lemma find_close_lt2: "is_line_terminator c \<Longrightarrow> find_close (a # c # s) = None"
  using line_terminator_not_bang by (cases s) (auto simp: find_close_lt1)

lemma find_close_lt3: "is_line_terminator c \<Longrightarrow> find_close (a # b # c # s) = None"
  using line_terminator_not_bang by (auto simp: find_close_lt2)

lemma find_close_append_lt:
  "is_line_terminator c \<Longrightarrow>
     find_close (s @ c # t) = map_option (\<lambda>(x, r). (x, r @ c # t)) (find_close s)"
proof (induction s rule: find_close.induct)
  case (1 a b d s)
  then show ?case
    by (auto simp: option.map_comp comp_def split_def)
next
  case (2 a b)
  then show ?case using find_close_lt3 [of c a b t] by simp
next
  case (3 a)
  then show ?case using find_close_lt2 [of c a t] by simp
next
  case 4
  then show ?case using find_close_lt1 [of c t] by simp
qed

lemma replace_spoiler_skip1: "a \<noteq> bang \<Longrightarrow> replace_spoiler (a # s) = a # replace_spoiler s"
proof (cases s)
  case Nil
  then show ?thesis by simp
next
  case (Cons b s')
  assume "a \<noteq> bang"
  then show ?thesis using Cons by (cases s') auto
qed

lemma replace_spoiler_skip2:
  "c \<noteq> bang \<Longrightarrow> replace_spoiler (a # c # s) = a # c # replace_spoiler s"
  by (cases s) (auto simp: replace_spoiler_skip1)

lemma replace_spoiler_skip3:
  "c \<noteq> bang \<Longrightarrow> replace_spoiler (a # b # c # s) = a # b # c # replace_spoiler s"
  by (simp add: replace_spoiler_skip2)

lemma replace_spoiler_append_lt:
  "is_line_terminator c \<Longrightarrow>
     replace_spoiler (s @ c # t) = replace_spoiler s @ c # replace_spoiler t"
proof (induction s rule: replace_spoiler.induct)
  case (1 a b d s)
  then show ?case
    by (auto simp: find_close_append_lt split: option.splits)
next
  case (2 a b)
  then show ?case
    using replace_spoiler_skip3 [of c a b t] line_terminator_not_bang [of c] by simp
next
  case (3 a)
  then show ?case
    using replace_spoiler_skip2 [of c a t] line_terminator_not_bang [of c] by simp
next
  case 4
  then show ?case
    using replace_spoiler_skip1 [of c t] line_terminator_not_bang [of c] by simp
qed

lemma replace_spoiler_few_bangs:
  "length (filter (\<lambda>c. c = bang) s) < 6 \<Longrightarrow> replace_spoiler s = s"
proof (induction s rule: replace_spoiler.induct)
  case (1 a b c s)
  show ?case
  proof (cases "a = bang \<and> b = bang \<and> c = bang")
    case True
    have none: "find_close s = None"
    proof (cases "find_close s")
      case None
      then show ?thesis .
    next
      case (Some xr)
      obtain x r where "xr = (x, r)" by (cases xr)
      then have "s = x @ bang # bang # bang # r"
        using Some find_close_Some by blast
      then have "3 \<le> length (filter (\<lambda>c. c = bang) s)" by simp
      then show ?thesis using "1.prems" True by simp
    qed
    have "length (filter (\<lambda>c. c = bang) (b # c # s)) < 6"
      using "1.prems" by (simp split: if_splits)
    then have "replace_spoiler (b # c # s) = b # c # s"
      using "1.IH"(1) [OF True none] by simp
    moreover have "replace_spoiler (a # b # c # s) = a # replace_spoiler (b # c # s)"
      using True none by simp
    ultimately show ?thesis by simp
  next
    case False
    have "length (filter (\<lambda>c. c = bang) (b # c # s)) < 6"
      using "1.prems" by (simp split: if_splits)
    then have "replace_spoiler (b # c # s) = b # c # s"
      using "1.IH"(3) [OF False] by simp
    moreover have "replace_spoiler (a # b # c # s) = a # replace_spoiler (b # c # s)"
      using False by auto
    ultimately show ?thesis by simp
  qed
qed simp_all

subsection \<open>Directive normalization keeps the bold pattern\<close>

lemma star_not_bang: "star \<noteq> bang"
  by (simp add: star_def bang_def)

lemma star_notin_spoiler_open: "star \<notin> set spoiler_open"
  by (simp add: spoiler_open_def js_def star_def)

lemma spoiler_close_Cons: "\<exists>e. spoiler_close = [e] \<and> e \<noteq> star"
  by (simp add: spoiler_close_def js_def star_def)

lemma star_notin_spoiler_close: "star \<notin> set spoiler_close"
  by (simp add: spoiler_close_def js_def star_def)

lemma star_in_replace_spoiler: "(star \<in> set (replace_spoiler s)) = (star \<in> set s)"
proof (induction s rule: replace_spoiler.induct)
  case (1 a b c s)
  show ?case
  proof (cases "a = bang \<and> b = bang \<and> c = bang")
    case True
    show ?thesis
    proof (cases "find_close s")
      case None
      then show ?thesis using "1.IH"(1) [OF True None] True by simp
    next
      case (Some xr)
      obtain x r where xr: "xr = (x, r)" by (cases xr)
      have split: "s = x @ bang # bang # bang # r"
        using Some xr find_close_Some by blast
      have ih: "(star \<in> set (replace_spoiler r)) = (star \<in> set r)"
        using "1.IH"(2) [OF True Some xr [symmetric]] .
      have "replace_spoiler (a # b # c # s) = spoiler_open @ x @ spoiler_close @ replace_spoiler r"
        using True Some xr by simp
      then have "(star \<in> set (replace_spoiler (a # b # c # s))) = (star \<in> set x \<or> star \<in> set r)"
        using ih star_notin_spoiler_open star_notin_spoiler_close by simp
      moreover have "(star \<in> set (a # b # c # s)) = (star \<in> set x \<or> star \<in> set r)"
        using True split star_not_bang by auto
      ultimately show ?thesis by simp
    qed
  next
    case False
    have "replace_spoiler (a # b # c # s) = a # replace_spoiler (b # c # s)"
      using False by auto
    then show ?thesis using "1.IH"(3) [OF False] by simp
  qed
qed simp_all

lemma replace_spoiler_head:
  assumes "d \<noteq> star"
  shows "\<exists>e w. replace_spoiler (d # s) = e # w \<and> e \<noteq> star"
proof (cases "d = bang")
  case False
  then show ?thesis using assms by (simp add: replace_spoiler_skip1)
next
  case True
  show ?thesis
  proof (cases s)
    case Nil
    then show ?thesis using assms by simp
  next
    case (Cons b s1)
    note s = Cons
    show ?thesis
    proof (cases s1)
      case Nil
      then show ?thesis using s assms by simp
    next
      case (Cons c s2)
      then show ?thesis using s assms
        by (auto split: option.splits simp: spoiler_open_def js_def star_def)
    qed
  qed
qed

lemma opener_replace_spoiler:
  "(\<exists>b. replace_spoiler s = star # b \<and> star \<notin> set b) = (\<exists>b. s = star # b \<and> star \<notin> set b)"
proof (cases s)
  case Nil
  then show ?thesis by simp
next
  case (Cons d s')
  show ?thesis
  proof (cases "d = star")
    case True
    then have "replace_spoiler s = star # replace_spoiler s'"
      using Cons star_not_bang by (simp add: replace_spoiler_skip1)
    then show ?thesis using Cons True star_in_replace_spoiler [of s'] by simp
  next
    case False
    then obtain e w where "replace_spoiler s = e # w" "e \<noteq> star"
      using Cons replace_spoiler_head by blast
    then show ?thesis using Cons False by simp
  qed
qed

lemma bold_re_Cons:
  "re_match_at bold_re (c # s) = (c = star \<and> (\<exists>b. s = star # b \<and> star \<notin> set b))"
  by (auto simp: re_bold_at)

lemma bold_skip: "e \<noteq> star \<Longrightarrow> re_test bold_re (e # s) = re_test bold_re s"
  by (simp add: bold_re_Cons)

lemma bold_skips: "star \<notin> set u \<Longrightarrow> re_test bold_re (u @ s) = re_test bold_re s"
proof (induction u)
  case Nil
  show ?case by simp
next
  case (Cons e u)
  then have "e \<noteq> star" by auto
  then have "re_test bold_re ((e # u) @ s) = re_test bold_re (u @ s)"
    using bold_skip [of e "u @ s"] by simp
  then show ?case using Cons by simp
qed

lemma bold_empty: "\<not> re_test bold_re []"
  by (simp add: bold_re_def)

lemma bold_append:
  "d \<noteq> star \<Longrightarrow>
     re_test bold_re (x @ d # w) =
       (re_test bold_re w \<or> (re_test bold_re x \<and> star \<notin> set w))"
proof (induction x)
  case Nil
  then show ?case by (simp add: bold_skip bold_empty del: re_test.simps)
next
  case (Cons c x)
  have "re_match_at bold_re (c # x @ d # w) = (re_match_at bold_re (c # x) \<and> star \<notin> set w)"
    using Cons.prems by (cases x) (auto simp: bold_re_Cons)
  then show ?case using Cons by auto
qed

lemma bold_replace_spoiler: "re_test bold_re (replace_spoiler s) = re_test bold_re s"
proof (induction s rule: replace_spoiler.induct)
  case (1 a b c s)
  show ?case
  proof (cases "a = bang \<and> b = bang \<and> c = bang")
    case True
    then have a: "a \<noteq> star" using star_not_bang by auto
    show ?thesis
    proof (cases "find_close s")
      case None
      have "replace_spoiler (a # b # c # s) = a # replace_spoiler (b # c # s)"
        using True None by simp
      then have "re_test bold_re (replace_spoiler (a # b # c # s)) =
                 re_test bold_re (replace_spoiler (b # c # s))"
        using a by (simp add: bold_skip del: re_test.simps replace_spoiler.simps)
      also have "\<dots> = re_test bold_re (b # c # s)"
        using "1.IH"(1) [OF True None] .
      also have "\<dots> = re_test bold_re (a # b # c # s)"
        using a by (simp add: bold_skip del: re_test.simps)
      finally show ?thesis .
    next
      case (Some xr)
      obtain x r where xr: "xr = (x, r)" by (cases xr)
      have split: "s = x @ bang # bang # bang # r"
        using Some xr find_close_Some by blast
      have ih: "re_test bold_re (replace_spoiler r) = re_test bold_re r"
        using "1.IH"(2) [OF True Some xr [symmetric]] .
      obtain c1 where c: "spoiler_close = [c1]" "c1 \<noteq> star"
        using spoiler_close_Cons by blast
      have "replace_spoiler (a # b # c # s) = spoiler_open @ x @ spoiler_close @ replace_spoiler r"
        using True Some xr by simp
      then have "re_test bold_re (replace_spoiler (a # b # c # s)) =
                 re_test bold_re (x @ spoiler_close @ replace_spoiler r)"
        using bold_skips [OF star_notin_spoiler_open] by simp
      also have "\<dots> = re_test bold_re (x @ c1 # replace_spoiler r)"
        unfolding c(1) by simp
      also have "\<dots> = (re_test bold_re (replace_spoiler r) \<or>
                       (re_test bold_re x \<and> star \<notin> set (replace_spoiler r)))"
        using c(2) by (rule bold_append)
      also have "\<dots> = (re_test bold_re r \<or> (re_test bold_re x \<and> star \<notin> set r))"
        using ih star_in_replace_spoiler [of r] by simp
      finally have left: "re_test bold_re (replace_spoiler (a # b # c # s)) =
                 (re_test bold_re r \<or> (re_test bold_re x \<and> star \<notin> set r))" .
      have "re_test bold_re (a # b # c # s) = re_test bold_re ([a, b, c] @ s)"
        by simp
      also have "\<dots> = re_test bold_re s"
        using True star_not_bang by (intro bold_skips) auto
      also have "\<dots> = re_test bold_re (x @ bang # bang # bang # r)"
        using split by simp
      also have "\<dots> = (re_test bold_re (bang # bang # r) \<or>
                       (re_test bold_re x \<and> star \<notin> set (bang # bang # r)))"
        using star_not_bang by (intro bold_append) auto
      also have "\<dots> = (re_test bold_re r \<or> (re_test bold_re x \<and> star \<notin> set r))"
        using star_not_bang bold_skips [of "[bang, bang]" r] by auto
      finally show ?thesis using left by simp
    qed
  next
    case False
    have "replace_spoiler (a # b # c # s) = a # replace_spoiler (b # c # s)"
      using False by auto
    then have "re_test bold_re (replace_spoiler (a # b # c # s)) =
          ((a = star \<and> (\<exists>w. replace_spoiler (b # c # s) = star # w \<and> star \<notin> set w)) \<or>
           re_test bold_re (replace_spoiler (b # c # s)))"
      by (simp add: bold_re_Cons del: replace_spoiler.simps)
    also have "\<dots> = ((a = star \<and> (\<exists>w. b # c # s = star # w \<and> star \<notin> set w)) \<or>
           re_test bold_re (b # c # s))"
      using "1.IH"(3) [OF False] opener_replace_spoiler [of "b # c # s"] by simp
    also have "\<dots> = re_test bold_re (a # b # c # s)"
      using re_test.simps(2) [of bold_re a "b # c # s"] bold_re_Cons [of a "b # c # s"] by blast
    finally show ?thesis .
  qed
qed simp_all

subsection \<open>The stages\<close>


text \<open>
  Claim C3. When the substituted text has an odd number of fence markers, the result is
  that text followed by a newline and one fence marker and nothing else, whatever the
  later stages would have matched.
\<close>

theorem unclosed_fence_exclusive:
  "odd (count_fence (replace_spoiler t)) \<Longrightarrow>
     autoFixMarkdown t True = replace_spoiler t @ js ''\<newline>```''"
proof -
  assume "odd (count_fence (replace_spoiler t))"
  then have "count_fence (replace_spoiler t) mod 2 \<noteq> 0"
    by (simp add: odd_iff_mod_2_eq_one)
  then show ?thesis
    by (simp add: autoFixMarkdown_def Let_def)
qed

theorem unclosed_fence_exclusive_witness:
  "odd (count_fence (replace_spoiler (js ''```js\<newline>code''))) \<and>
   autoFixMarkdown (js ''```js\<newline>code'') True = js ''```js\<newline>code\<newline>```'' \<and>
   odd (count_fence (replace_spoiler (js ''```js\<newline>a **b `c''))) \<and>
   autoFixMarkdown (js ''```js\<newline>a **b `c'') True = js ''```js\<newline>a **b `c\<newline>```''"
proof -
  have a: "odd (count_fence (replace_spoiler (js ''```js\<newline>code'')))"
    by code_simp
  have b: "replace_spoiler (js ''```js\<newline>code'') @ js ''\<newline>```'' = js ''```js\<newline>code\<newline>```''"
    by code_simp
  have c: "odd (count_fence (replace_spoiler (js ''```js\<newline>a **b `c'')))"
    by code_simp
  have d: "replace_spoiler (js ''```js\<newline>a **b `c'') @ js ''\<newline>```'' = js ''```js\<newline>a **b `c\<newline>```''"
    by code_simp
  show ?thesis
    using unclosed_fence_exclusive [OF a] unclosed_fence_exclusive [OF c] a b c d by simp
qed

text \<open>
  Claim C1, as stated, fails on its own example: the closing \<^verbatim>\<open>**\<close> of a closed
  bold span is followed by no further asterisk, so the bold stage matches and appends
  another \<^verbatim>\<open>**\<close>.
\<close>

theorem balanced_noop_counterexample:
  "autoFixMarkdown (js ''**bold** and `code` and [a](b)'') True \<noteq> js ''**bold** and `code` and [a](b)''"
  by code_simp

text \<open>
  Claim C1, amended. When the substituted text has an even number of fence markers, an even
  number of \<^verbatim>\<open>$$\<close> markers and an even number of backticks on its last line, does
  not end in \<^verbatim>\<open>**\<close> followed only by units other than the asterisk, and does not
  end in a bracketed label followed by an opened, unclosed parenthesis, the result is the
  substituted text unchanged.
\<close>

theorem no_stage_matches:
  assumes "p = replace_spoiler t"
      and "even (count_fence p)"
      and "even (count_math p)"
      and "even (count_backtick (last (split_newline p)))"
      and "\<not> (\<exists>a b. p = a @ star # star # b \<and> star \<notin> set b)"
      and "\<not> (\<exists>a x y. p = a @ lbracket # x @ rbracket # lparen # y \<and>
                 rbracket \<notin> set x \<and> rparen \<notin> set y)"
  shows "autoFixMarkdown t True = p"
proof -
  have bold: "\<not> re_test bold_re p"
    using assms(5) by (simp add: re_test_bold)
  have link: "\<not> link_test p"
    using assms(6) by (simp add: link_test_iff)
  have lines: "split_newline p \<noteq> []"
    by (cases p) (auto split: list.splits)
  show ?thesis
    using assms(1-4) bold link lines
    by (simp add: autoFixMarkdown_def Let_def even_iff_mod_2_eq_zero)
qed

theorem no_stage_matches_witness:
  "even (count_fence (replace_spoiler (js ''*bold* and `code` and [a](b)''))) \<and>
   even (count_math (replace_spoiler (js ''*bold* and `code` and [a](b)''))) \<and>
   even (count_backtick (last (split_newline (replace_spoiler (js ''*bold* and `code` and [a](b)''))))) \<and>
   autoFixMarkdown (js ''*bold* and `code` and [a](b)'') True =
     replace_spoiler (js ''*bold* and `code` and [a](b)'') \<and>
   replace_spoiler (js ''*bold* and `code` and [a](b)'') = js ''*bold* and `code` and [a](b)''"
proof -
  let ?t = "js ''*bold* and `code` and [a](b)''"
  have a: "even (count_fence (replace_spoiler ?t))" by code_simp
  have b: "even (count_math (replace_spoiler ?t))" by code_simp
  have c: "even (count_backtick (last (split_newline (replace_spoiler ?t))))" by code_simp
  have "\<not> re_test bold_re (replace_spoiler ?t)" by code_simp
  then have d: "\<not> (\<exists>a b. replace_spoiler ?t = a @ star # star # b \<and> star \<notin> set b)"
    by (simp add: re_test_bold)
  have "\<not> link_test (replace_spoiler ?t)" by code_simp
  then have e: "\<not> (\<exists>a x y. replace_spoiler ?t = a @ lbracket # x @ rbracket # lparen # y \<and>
                 rbracket \<notin> set x \<and> rparen \<notin> set y)"
    by (simp add: link_test_iff)
  have f: "replace_spoiler ?t = ?t" by code_simp
  show ?thesis
    using no_stage_matches [OF refl a b c d e] a b c f by blast
qed

text \<open>
  Claim C8, as stated, fails: the text below ends in a bold opener followed by no asterisk,
  but the odd backtick on its last line is repaired first, and nothing is trimmed.
\<close>

theorem bold_trim_counterexample:
  "js ''`a **bold  '' = js ''`a '' @ star # star # js ''bold  '' \<and> star \<notin> set (js ''bold  '') \<and>
   autoFixMarkdown (js ''`a **bold  '') True \<noteq> trimEnd (replace_spoiler (js ''`a **bold  '')) @ js ''**'' \<and>
   autoFixMarkdown (js ''`a **bold  '') True \<noteq> js ''`a **bold**''"
  by code_simp

text \<open>
  Claim C8, amended. For a text that ends in \<^verbatim>\<open>**\<close> followed only by units other
  than the asterisk, and whose substituted form has an even number of fence markers, of
  \<^verbatim>\<open>$$\<close> markers and of backticks on its last line, the result is the substituted
  text with its trailing white space removed and \<^verbatim>\<open>**\<close> appended.
\<close>

theorem unclosed_bold_closed:
  assumes "t = a @ star # star # b" and "star \<notin> set b"
      and "p = replace_spoiler t"
      and "even (count_fence p)"
      and "even (count_math p)"
      and "even (count_backtick (last (split_newline p)))"
  shows "autoFixMarkdown t True = trimEnd p @ js ''**''"
proof -
  have "re_test bold_re t"
    using assms(1,2) re_test_bold by blast
  then have bold: "re_test bold_re p"
    using assms(3) by (simp add: bold_replace_spoiler)
  have lines: "split_newline p \<noteq> []"
    by (cases p) (auto split: list.splits)
  show ?thesis
    using assms(3-6) bold lines
    by (simp add: autoFixMarkdown_def Let_def even_iff_mod_2_eq_zero)
qed

theorem unclosed_bold_closed_witness:
  "js ''text **bold   '' = js ''text '' @ star # star # js ''bold   '' \<and>
   star \<notin> set (js ''bold   '') \<and>
   even (count_fence (replace_spoiler (js ''text **bold   ''))) \<and>
   even (count_math (replace_spoiler (js ''text **bold   ''))) \<and>
   even (count_backtick (last (split_newline (replace_spoiler (js ''text **bold   ''))))) \<and>
   autoFixMarkdown (js ''text **bold   '') True = js ''text **bold**''"
proof -
  let ?t = "js ''text **bold   ''"
  have a: "?t = js ''text '' @ star # star # js ''bold   ''" by code_simp
  have b: "star \<notin> set (js ''bold   '')" by code_simp
  have c: "even (count_fence (replace_spoiler ?t))" by code_simp
  have d: "even (count_math (replace_spoiler ?t))" by code_simp
  have e: "even (count_backtick (last (split_newline (replace_spoiler ?t))))" by code_simp
  have f: "trimEnd (replace_spoiler ?t) @ js ''**'' = js ''text **bold**''" by code_simp
  show ?thesis
    using unclosed_bold_closed [OF a b refl c d e] a b c d e f by simp
qed

text \<open>
  Claim C9. A span that opens with \<^verbatim>\<open>!!!\<close>, closes with \<^verbatim>\<open>!!!\<close> and
  has a line terminator in its content (and no other exclamation mark) is left as it is by
  the directive substitution.
\<close>

theorem spoiler_single_line:
  assumes "is_line_terminator c" and "bang \<notin> set u" and "bang \<notin> set v"
  shows "replace_spoiler (js ''!!!'' @ u @ c # v @ js ''!!!'') = js ''!!!'' @ u @ c # v @ js ''!!!''"
proof -
  have three: "js ''!!!'' = [bang, bang, bang]"
    by (simp add: js_def bang_def)
  have nb: "\<And>w. bang \<notin> set w \<Longrightarrow> filter (\<lambda>c. c = bang) w = []"
    by (auto simp: filter_empty_conv)
  have left: "replace_spoiler (js ''!!!'' @ u) = js ''!!!'' @ u"
    using assms(2) by (intro replace_spoiler_few_bangs) (simp add: three nb)
  have right: "replace_spoiler (v @ js ''!!!'') = v @ js ''!!!''"
    using assms(3) by (intro replace_spoiler_few_bangs) (simp add: three nb)
  have "replace_spoiler ((js ''!!!'' @ u) @ c # (v @ js ''!!!'')) =
          replace_spoiler (js ''!!!'' @ u) @ c # replace_spoiler (v @ js ''!!!'')"
    using assms(1) by (rule replace_spoiler_append_lt)
  then show ?thesis using left right by simp
qed

theorem spoiler_single_line_witness:
  "is_line_terminator newline \<and> bang \<notin> set (js ''a'') \<and> bang \<notin> set (js ''b'') \<and>
   replace_spoiler (js ''!!!a\<newline>b!!!'') = js ''!!!a\<newline>b!!!'' \<and>
   autoFixMarkdown (js ''!!!a\<newline>b!!!'') False = js ''!!!a\<newline>b!!!''"
proof -
  have a: "is_line_terminator newline" by code_simp
  have b: "bang \<notin> set (js ''a'')" by code_simp
  have c: "bang \<notin> set (js ''b'')" by code_simp
  have d: "js ''!!!'' @ js ''a'' @ newline # js ''b'' @ js ''!!!'' = js ''!!!a\<newline>b!!!''"
    by code_simp
  have e: "autoFixMarkdown (js ''!!!a\<newline>b!!!'') False = replace_spoiler (js ''!!!a\<newline>b!!!'')"
    by (simp add: autoFixMarkdown_def)
  show ?thesis
    using spoiler_single_line [OF a b c] a b c d e by simp
qed

end
